theory Spec2Isabelle
  imports Main "HOL-Library.Word"
begin

unbundle bit_operations_syntax

section \<open>Machine types\<close>

text \<open>
  The sources work on \<open>byte\<close> (unsigned 8 bit), \<open>int32_t\<close> and \<open>uint64_t\<close>.
  Values of these types are words; \<open>int32_t\<close> is read in two's complement
  (\<open>sint\<close>, \<open>signed_drop_bit\<close> for \<open>>>\<close>).
\<close>

type_synonym byte = "8 word"
type_synonym int32 = "32 word"
type_synonym uint64 = "64 word"

section \<open>Memory\<close>

text \<open>
  An array is a list; its length is the number of elements the caller allocated. The
  sources index with \<open>int32_t\<close> and never check a bound: an access outside the array
  is undefined behaviour in C++ and a \<open>fault\<close> here, which carries the name of the
  array and the offending index.
\<close>

datatype fault = SignedOverflow | OutOfBounds string int

definition rd :: "string \<Rightarrow> 'a list \<Rightarrow> int \<Rightarrow> fault + 'a" where
  "rd a xs i = (if 0 \<le> i \<and> i < int (length xs) then Inr (xs ! nat i) else Inl (OutOfBounds a i))"

definition wr :: "string \<Rightarrow> 'a list \<Rightarrow> int \<Rightarrow> 'a \<Rightarrow> fault + 'a list" where
  "wr a xs i v = (if 0 \<le> i \<and> i < int (length xs) then Inr (xs[nat i := v]) else Inl (OutOfBounds a i))"


section \<open>Definitions: \<open>h_BMP_BIT.h\<close>\<close>

subsection \<open>Two's complement magnitude sign (TCMS)\<close>

text \<open>
  Forward map, lines 171--173 of \<open>h_BMP_BIT\<close>:
  \<^verbatim>\<open>v = ((v << 1) ^ ((v << 24) >> 31)) & 0xff;\<close> on an \<open>int32_t\<close>.
\<close>

definition tcms :: "int32 \<Rightarrow> int32" where
  "tcms v = (push_bit 1 v XOR signed_drop_bit 31 (push_bit 24 v)) AND 0xff"

text \<open>
  Inverse map, lines 292--294 and 323--325 of \<open>h_iBMP_BIT\<close>:
  \<^verbatim>\<open>v = (v >> 1) ^ ((v << 31) >> 31);\<close>. The argument is a byte that was
  widened to \<open>int32_t\<close>, so \<open>>> 1\<close> acts on a non-negative value.
\<close>

definition itcms :: "int32 \<Rightarrow> int32" where
  "itcms v = signed_drop_bit 1 v XOR signed_drop_bit 31 (push_bit 31 v)"

subsection \<open>The 8x8 bit-matrix transposition\<close>

text \<open>
  The three butterfly layers, lines 198--203 of \<open>h_BMP_BIT\<close> and 269--274 of
  \<open>h_iBMP_BIT\<close>, on one \<open>uint64_t\<close>.
\<close>

definition bit_transpose :: "uint64 \<Rightarrow> uint64" where
  "bit_transpose x0 =
    (let t = (x0 XOR drop_bit 7 x0) AND 0x00AA00AA00AA00AA;
         x = x0 XOR t XOR push_bit 7 t;
         t = (x XOR drop_bit 14 x) AND 0x0000CCCC0000CCCC;
         x = x XOR t XOR push_bit 14 t;
         t = (x XOR drop_bit 28 x) AND 0x00000000F0F0F0F0;
         x = x XOR t XOR push_bit 28 t
     in x)"

text \<open>
  One layer on its own, for the proofs: exchange the bits selected by the mask \<open>m\<close>
  with the bits \<open>s\<close> places above them.
\<close>

definition delta_swap :: "nat \<Rightarrow> uint64 \<Rightarrow> uint64 \<Rightarrow> uint64" where
  "delta_swap s m x = (let t = (x XOR drop_bit s x) AND m in x XOR t XOR push_bit s t)"

text \<open>
  Byte \<open>i\<close> of a 64-bit word, least significant first: the value the forward stage
  stores with \<^verbatim>\<open>bmp[...] = x >> (i * 8)\<close>.
\<close>

definition byte_of :: "uint64 \<Rightarrow> nat \<Rightarrow> byte" where
  "byte_of x i = ucast (drop_bit (i * 8) x)"

section \<open>Definitions: zero elimination (\<open>h_ZEencode\<close>, \<open>h_ZEdecode\<close>)\<close>

text \<open>
  The word type \<open>T\<close> of the templates is \<open>'a word\<close>, with \<open>bits = LENGTH('a)\<close>.
  Sizes are \<open>int32_t\<close> in the source and \<open>int\<close> here; the one expression that can
  leave the \<open>int32_t\<close> range, \<^verbatim>\<open>insize + bits - 1\<close>, is checked and reported as
  \<open>SignedOverflow\<close>. The counters \<open>i\<close>, \<open>j\<close>, \<open>cnt\<close> and \<open>pos\<close> start at 0 and are only
  incremented, so they are natural numbers.

  Integer division in C++ truncates towards zero.
\<close>

definition cdiv :: "int \<Rightarrow> int \<Rightarrow> int" where
  "cdiv a b = sgn a * sgn b * (\<bar>a\<bar> div \<bar>b\<bar>)"

text \<open>
  The loop over \<open>j\<close>, lines 119--128 and 134--144. The two copies in the source differ
  only in the line \<^verbatim>\<open>if (cnt >= insize) break;\<close> of the second one, which \<open>brk\<close>
  switches on. The first component of the result is \<open>False\<close> when the checked variant
  executed \<^verbatim>\<open>return false\<close>.
\<close>

function h_ZEencode_group ::
  "bool \<Rightarrow> bool \<Rightarrow> 'a::len word list \<Rightarrow> int \<Rightarrow> int \<Rightarrow> nat \<Rightarrow> nat \<Rightarrow> nat \<Rightarrow> 'a word \<Rightarrow> 'a word list
    \<Rightarrow> fault + (bool \<times> nat \<times> nat \<times> 'a word \<times> 'a word list)" where
  "h_ZEencode_group check brk inp insize datasize j cnt pos bm dataout =
    (if j < LENGTH('a) then
       if brk \<and> int cnt \<ge> insize then Inr (True, cnt, pos, bm, dataout)
       else
        (case rd ''in'' inp (int cnt) of
           Inl e \<Rightarrow> Inl e
         | Inr val \<Rightarrow>
            if val \<noteq> 0 then
              if check \<and> int pos \<ge> datasize then Inr (False, Suc cnt, pos, bm, dataout)
              else
               (case wr ''dataout'' dataout (int pos) val of
                  Inl e \<Rightarrow> Inl e
                | Inr dataout' \<Rightarrow>
                    h_ZEencode_group check brk inp insize datasize (Suc j) (Suc cnt) (Suc pos)
                      (bm OR push_bit j 1) dataout')
            else h_ZEencode_group check brk inp insize datasize (Suc j) (Suc cnt) pos bm dataout)
     else Inr (True, cnt, pos, bm, dataout))"
  by pat_completeness auto
termination
  by (relation "measure (\<lambda>(check, brk, inp, insize, datasize, j, cnt, pos, bm, dataout). LENGTH('a) - j)") auto

text \<open>The loop over the full subchunks, \<^verbatim>\<open>for (i = 0; i < num - 1; i++)\<close>, lines 117--130.\<close>

function h_ZEencode_groups ::
  "bool \<Rightarrow> 'a::len word list \<Rightarrow> int \<Rightarrow> int \<Rightarrow> int \<Rightarrow> nat \<Rightarrow> nat \<Rightarrow> nat \<Rightarrow> 'a word list \<Rightarrow> 'a word list
    \<Rightarrow> fault + (bool \<times> nat \<times> nat \<times> 'a word list \<times> 'a word list)" where
  "h_ZEencode_groups check inp insize datasize num i cnt pos dataout bmout =
    (if int i < num - 1 then
       (case h_ZEencode_group check False inp insize datasize 0 cnt pos 0 dataout of
          Inl e \<Rightarrow> Inl e
        | Inr (ok, cnt', pos', bm, dataout') \<Rightarrow>
            if \<not> ok then Inr (False, cnt', pos', dataout', bmout)
            else
             (case wr ''bmout'' bmout (int i) bm of
                Inl e \<Rightarrow> Inl e
              | Inr bmout' \<Rightarrow>
                  h_ZEencode_groups check inp insize datasize num (Suc i) cnt' pos' dataout' bmout'))
     else Inr (True, cnt, pos, dataout, bmout))"
  by pat_completeness auto
termination
  by (relation "measure (\<lambda>(check, inp, insize, datasize, num, i, cnt, pos, dataout, bmout). nat (num - 1 - int i))") auto

text \<open>
  \<open>h_ZEencode<T, check>(in, insize, dataout, datasize, bmout)\<close>. The result holds the
  returned flag and the three things the caller sees afterwards: \<open>dataout\<close>, the
  reference parameter \<open>datasize\<close> and \<open>bmout\<close>.
\<close>

definition h_ZEencode ::
  "bool \<Rightarrow> 'a::len word list \<Rightarrow> int \<Rightarrow> 'a word list \<Rightarrow> int \<Rightarrow> 'a word list
    \<Rightarrow> fault + (bool \<times> 'a word list \<times> int \<times> 'a word list)" where
  "h_ZEencode check inp insize dataout datasize bmout =
    (let bits = int LENGTH('a) in
     if insize + bits - 1 > 2147483647 then Inl SignedOverflow
     else
      let num = cdiv (insize + bits - 1) bits in
      case h_ZEencode_groups check inp insize datasize num 0 0 0 dataout bmout of
        Inl e \<Rightarrow> Inl e
      | Inr (ok, cnt, pos, dataout1, bmout1) \<Rightarrow>
          if \<not> ok then Inr (False, dataout1, datasize, bmout1)
          else
           (case h_ZEencode_group check True inp insize datasize 0 cnt pos 0 dataout1 of
              Inl e \<Rightarrow> Inl e
            | Inr (ok', cnt', pos', bm, dataout2) \<Rightarrow>
                if \<not> ok' then Inr (False, dataout2, datasize, bmout1)
                else
                 (case wr ''bmout'' bmout1 (num - 1) bm of
                    Inl e \<Rightarrow> Inl e
                  | Inr bmout2 \<Rightarrow> Inr (True, dataout2, int pos', bmout2))))"

text \<open>
  The decoder's loop over \<open>j\<close>, lines 161--167 and 172--179; \<open>brk\<close> switches on the line
  \<^verbatim>\<open>if (cnt >= decsize) break;\<close>, which here comes after the store.
\<close>

function h_ZEdecode_group ::
  "bool \<Rightarrow> int \<Rightarrow> 'a::len word list \<Rightarrow> 'a word \<Rightarrow> nat \<Rightarrow> nat \<Rightarrow> nat \<Rightarrow> 'a word list
    \<Rightarrow> fault + (nat \<times> nat \<times> 'a word list)" where
  "h_ZEdecode_group brk decsize datain bm j cnt pos out =
    (if j < LENGTH('a) then
       (case (if bit bm j
              then (case rd ''datain'' datain (int pos) of Inl e \<Rightarrow> Inl e | Inr v \<Rightarrow> Inr (v, Suc pos))
              else Inr (0, pos)) of
          Inl e \<Rightarrow> Inl e
        | Inr (val, pos') \<Rightarrow>
           (case wr ''out'' out (int cnt) val of
              Inl e \<Rightarrow> Inl e
            | Inr out' \<Rightarrow>
                if brk \<and> int (Suc cnt) \<ge> decsize then Inr (Suc cnt, pos', out')
                else h_ZEdecode_group brk decsize datain bm (Suc j) (Suc cnt) pos' out'))
     else Inr (cnt, pos, out))"
  by pat_completeness auto
termination
  by (relation "measure (\<lambda>(brk, decsize, datain, bm, j, cnt, pos, out). LENGTH('a) - j)") auto

text \<open>The loop over the full subchunks, lines 159--168.\<close>

function h_ZEdecode_groups ::
  "int \<Rightarrow> 'a::len word list \<Rightarrow> 'a word list \<Rightarrow> int \<Rightarrow> nat \<Rightarrow> nat \<Rightarrow> nat \<Rightarrow> 'a word list
    \<Rightarrow> fault + (nat \<times> nat \<times> 'a word list)" where
  "h_ZEdecode_groups decsize datain bmin num i cnt pos out =
    (if int i < num - 1 then
       (case rd ''bmin'' bmin (int i) of
          Inl e \<Rightarrow> Inl e
        | Inr bm \<Rightarrow>
           (case h_ZEdecode_group False decsize datain bm 0 cnt pos out of
              Inl e \<Rightarrow> Inl e
            | Inr (cnt', pos', out') \<Rightarrow>
                h_ZEdecode_groups decsize datain bmin num (Suc i) cnt' pos' out'))
     else Inr (cnt, pos, out))"
  by pat_completeness auto
termination
  by (relation "measure (\<lambda>(decsize, datain, bmin, num, i, cnt, pos, out). nat (num - 1 - int i))") auto

text \<open>\<open>h_ZEdecode<T>(decsize, datain, bmin, out)\<close>; the result is \<open>out\<close> afterwards.\<close>

definition h_ZEdecode ::
  "int \<Rightarrow> 'a::len word list \<Rightarrow> 'a word list \<Rightarrow> 'a word list \<Rightarrow> fault + 'a word list" where
  "h_ZEdecode decsize datain bmin out =
    (let bits = int LENGTH('a) in
     if decsize + bits - 1 > 2147483647 then Inl SignedOverflow
     else
      let num = cdiv (decsize + bits - 1) bits in
      case h_ZEdecode_groups decsize datain bmin num 0 0 0 out of
        Inl e \<Rightarrow> Inl e
      | Inr (cnt, pos, out1) \<Rightarrow>
         (case rd ''bmin'' bmin (num - 1) of
            Inl e \<Rightarrow> Inl e
          | Inr bm \<Rightarrow>
             (case h_ZEdecode_group True decsize datain bm 0 cnt pos out1 of
                Inl e \<Rightarrow> Inl e
              | Inr (cnt', pos', out2) \<Rightarrow> Inr out2)))"

declare h_ZEencode_group.simps [simp del] h_ZEencode_groups.simps [simp del]
  h_ZEdecode_group.simps [simp del] h_ZEdecode_groups.simps [simp del]

subsection \<open>What the codec is expected to compute\<close>

text \<open>The non-zero words of a list, in order.\<close>

abbreviation nz :: "'a::len word list \<Rightarrow> 'a word list" where
  "nz xs \<equiv> filter (\<lambda>v. v \<noteq> 0) xs"

text \<open>The number of subchunks \<open>\<lceil>N / bits\<rceil>\<close>.\<close>

definition ngroups :: "'a::len itself \<Rightarrow> nat \<Rightarrow> nat" where
  "ngroups _ N = (N + LENGTH('a) - 1) div LENGTH('a)"

text \<open>The bitmap word of a list of at most \<open>bits\<close> words, starting at bit \<open>j\<close>.\<close>

fun grp_bits :: "nat \<Rightarrow> 'a::len word list \<Rightarrow> 'a word" where
  "grp_bits j [] = 0"
| "grp_bits j (v # vs) = (if v \<noteq> 0 then push_bit j 1 else 0) OR grp_bits (Suc j) vs"

definition grp :: "'a::len word list \<Rightarrow> nat \<Rightarrow> 'a word" where
  "grp inp g = grp_bits 0 (take LENGTH('a) (drop (g * LENGTH('a)) inp))"

section \<open>Properties of TCMS\<close>

lemma mask8_32: "(0xff :: int32) = mask 8"
  by (simp add: mask_eq_exp_minus_1)

lemma bit_tcms:
  "bit (tcms v) n \<longleftrightarrow> n < 8 \<and> ((0 < n \<and> bit v (n - 1)) \<noteq> bit v 7)"
  unfolding tcms_def mask8_32
  by (auto simp add: bit_simps simp del: push_bit_of_Suc_0 One_nat_def)

lemma bit8_lt: "bit (u :: byte) n \<Longrightarrow> n < 8"
  by (auto dest: bit_imp_le_length)

lemma bit_itcms_byte:
  "bit (itcms (ucast (u :: byte))) n \<longleftrightarrow> n < 32 \<and> (bit u (Suc n) \<noteq> bit u 0)"
  unfolding itcms_def
  by (auto simp add: bit_simps dest: bit8_lt)

lemma lt8_cases: "n < 8 \<Longrightarrow> n < 7 \<or> n = (7::nat)"
  by arith

text \<open>The forward value always fits a byte.\<close>

lemma tcms_byte: "ucast (ucast (tcms v) :: byte) = tcms v"
  by (rule bit_word_eqI) (auto simp add: bit_simps bit_tcms)

text \<open>
  For any 32-bit residual the decoder recovers its low eight bits from the stored byte;
  this is the form the round trip of the pixel stage needs.
\<close>

lemma itcms_tcms_low:
  "ucast (itcms (ucast (ucast (tcms v) :: byte))) = (ucast v :: byte)"
  by (rule bit_word_eqI)
    (auto simp add: bit_simps bit_itcms_byte bit_tcms dest: lt8_cases)

lemma itcms_tcms_scast: "itcms (tcms (scast (s :: byte))) = scast s"
  apply (subst tcms_byte[symmetric])
  apply (rule bit_word_eqI)
  apply (auto simp add: bit_simps bit_itcms_byte bit_tcms min_def dest: lt8_cases
      split: if_splits)
  done

lemma tcms_itcms_ucast: "tcms (itcms (ucast (u :: byte))) = ucast u"
proof (rule bit_word_eqI)
  fix n assume "n < LENGTH(32)"
  show "bit (tcms (itcms (ucast u))) n = bit (ucast u :: int32) n"
    by (cases n)
      (auto simp add: bit_simps bit_itcms_byte bit_tcms impossible_bit dest: bit8_lt)
qed

lemma itcms_ucast_range:
  "itcms (ucast (u :: byte)) = scast (ucast (itcms (ucast u)) :: byte)"
  by (rule bit_word_eqI)
    (auto simp add: bit_simps bit_itcms_byte min_def impossible_bit
      dest: lt8_cases bit8_lt split: if_splits)

lemma sint_byte_range: "- 128 \<le> sint (b :: byte) \<and> sint b \<le> 127"
  using sint_range_size[of b] by (simp add: word_size)

text \<open>
  C4. TCMS is a bijection between the signed 8-bit integers and the unsigned bytes.
  A signed 8-bit integer \<open>s\<close> enters the code as the \<open>int32_t\<close> value \<open>scast s\<close>
  (sign extension, value in \<open>[-128, 127]\<close>), a stored byte \<open>u\<close> as \<open>ucast u\<close>
  (value in \<open>[0, 255]\<close>). The inverse map applied to the forward value gives \<open>s\<close>
  back, the forward value is below 256, every byte \<open>u\<close> is the forward value of its
  inverse image, and that inverse image lies in \<open>[-128, 127]\<close>.
\<close>

theorem tcms_bijection:
  fixes s u :: byte
  shows "itcms (tcms (scast s)) = scast s \<and>
         unat (tcms (scast s)) < 256 \<and>
         tcms (itcms (ucast u)) = ucast u \<and>
         - 128 \<le> sint (itcms (ucast u)) \<and> sint (itcms (ucast u)) \<le> 127"
proof -
  have "tcms (scast s) \<le> 0xff"
    unfolding tcms_def by (rule word_and_le1)
  then have r: "unat (tcms (scast s)) < 256"
    by (simp add: word_le_nat_alt)
  have "sint (itcms (ucast u)) = sint (ucast (itcms (ucast u)) :: byte)"
    by (subst itcms_ucast_range) (simp add: sint_up_scast is_up)
  with sint_byte_range[of "ucast (itcms (ucast u)) :: byte"]
  have "- 128 \<le> sint (itcms (ucast u)) \<and> sint (itcms (ucast u)) \<le> 127"
    by simp
  with r show ?thesis
    by (simp add: itcms_tcms_scast tcms_itcms_ucast)
qed

section \<open>Properties of the bit-matrix transposition\<close>

text \<open>
  One butterfly layer swaps the bits selected by the mask with the bits \<open>s\<close> places
  above them, as long as the mask and its shifted copy do not overlap.
\<close>

lemma bit_delta_swap:
  fixes m x :: "'a::len word"
  assumes "m AND push_bit s m = 0"
  shows "bit (x XOR ((x XOR drop_bit s x) AND m) XOR push_bit s ((x XOR drop_bit s x) AND m)) n
     \<longleftrightarrow> (if bit m n then bit x (n + s)
          else if s \<le> n \<and> n < LENGTH('a) \<and> bit m (n - s) then bit x (n - s)
          else bit x n)"
proof -
  have "\<not> (bit m n \<and> s \<le> n \<and> bit m (n - s))"
  proof
    assume "bit m n \<and> s \<le> n \<and> bit m (n - s)"
    then have "bit (m AND push_bit s m) n"
      by (auto simp add: bit_simps dest: bit_imp_le_length)
    with assms show False by simp
  qed
  then show ?thesis
    by (auto simp add: bit_simps add.commute dest: bit_imp_le_length)
qed

lemma layer_masks_disjoint:
  "(0x00AA00AA00AA00AA :: uint64) AND push_bit 7 0x00AA00AA00AA00AA = 0"
  "(0x0000CCCC0000CCCC :: uint64) AND push_bit 14 0x0000CCCC0000CCCC = 0"
  "(0x00000000F0F0F0F0 :: uint64) AND push_bit 28 0x00000000F0F0F0F0 = 0"
  by simp_all

lemma lt8_enum:
  "i < 8 \<longleftrightarrow> i = 0 \<or> i = 1 \<or> i = 2 \<or> i = 3 \<or> i = 4 \<or> i = 5 \<or> i = 6 \<or> i = (7::nat)"
  by arith

lemma bit_transpose_layers:
  "bit_transpose x =
     delta_swap 28 0x00000000F0F0F0F0
       (delta_swap 14 0x0000CCCC0000CCCC (delta_swap 7 0x00AA00AA00AA00AA x))"
  unfolding bit_transpose_def delta_swap_def Let_def ..

lemma bit_delta_swap64:
  assumes "m AND push_bit s m = 0"
  shows "bit (delta_swap s m x) n \<longleftrightarrow>
     (if bit m n then bit x (n + s)
      else if s \<le> n \<and> n < 64 \<and> bit m (n - s) then bit x (n - s)
      else bit x n)"
  unfolding delta_swap_def Let_def bit_delta_swap[OF assms] by simp

lemma bit_bit_transpose:
  "i < 8 \<Longrightarrow> j < 8 \<Longrightarrow> bit (bit_transpose x) (8 * j + i) = bit x (8 * i + j)"
  unfolding bit_transpose_layers lt8_enum
  apply (elim disjE)
  apply (simp_all add: layer_masks_disjoint [THEN bit_delta_swap64] numeral_2_eq_2 [symmetric])
  done

lemma bit_transpose_involution: "bit_transpose (bit_transpose x) = x"
proof (rule bit_word_eqI)
  fix n assume "n < LENGTH(64)"
  then have n64: "n < 64" by simp
  define i where "i = n mod 8"
  define j where "j = n div 8"
  have ij: "i < 8" "j < 8"
    using n64 by (simp_all add: i_def j_def less_mult_imp_div_less)
  have n: "n = 8 * j + i"
    by (simp add: i_def j_def)
  show "bit (bit_transpose (bit_transpose x)) n = bit x n"
    unfolding n
    by (simp only: bit_bit_transpose[OF ij(1) ij(2)] bit_bit_transpose[OF ij(2) ij(1)])
qed

lemma bit_byte_of: "bit (byte_of x i) j \<longleftrightarrow> j < 8 \<and> bit x (8 * i + j)"
  by (simp add: byte_of_def bit_simps mult.commute)

text \<open>
  C5. With \<open>b\<^sub>i = byte_of x i\<close> the bytes of the input word and
  \<open>y\<^sub>j = byte_of (bit_transpose x) j\<close> the bytes of the result, bit \<open>i\<close> of \<open>y\<^sub>j\<close> is
  bit \<open>j\<close> of \<open>b\<^sub>i\<close> for all \<open>i, j < 8\<close>, and the butterfly applied twice is the
  identity on every 64-bit word.
\<close>

theorem bit_transpose_is_transpose:
  "(i < 8 \<and> j < 8 \<longrightarrow> bit (byte_of (bit_transpose x) j) i = bit (byte_of x i) j) \<and>
   bit_transpose (bit_transpose x) = x"
  by (simp add: bit_byte_of bit_bit_transpose bit_transpose_involution)

theorem bit_transpose_is_transpose_witness:
  "bit (byte_of (bit_transpose 0x0102040810204080) 7) 0 = bit (byte_of 0x0102040810204080 0) 7 \<and>
   bit_transpose (bit_transpose 0x0102040810204080) = 0x0102040810204080"
  using bit_transpose_is_transpose [of 0 7 "0x0102040810204080"] by simp

text \<open>
  C9. The word \<open>0x0102040810204080\<close> has bytes \<open>80, 40, 20, 10, 08, 04, 02, 01\<close>
  (least significant first): bit \<open>j\<close> of byte \<open>i\<close> is set exactly when \<open>i + j = 7\<close>.
  This bit matrix is symmetric, so the transposition returns the word itself, and not
  \<open>0xFF00000000000000\<close>.
\<close>

theorem bit_transpose_antidiagonal:
  "bit_transpose 0x0102040810204080 = 0x0102040810204080"
  by (simp add: bit_transpose_def Let_def)

theorem bit_transpose_antidiagonal_counterexample:
  "bit_transpose 0x0102040810204080 \<noteq> 0xFF00000000000000"
  by (simp add: bit_transpose_def Let_def)

section \<open>Properties of zero elimination\<close>

lemma bit_grp_bits:
  "bit (grp_bits j vs) n \<longleftrightarrow> n < LENGTH('a) \<and> j \<le> n \<and> n - j < length vs \<and> vs ! (n - j) \<noteq> 0"
  for vs :: "'a::len word list"
proof (induction vs arbitrary: j n)
  case Nil
  then show ?case by simp
next
  case (Cons v vs)
  consider "n = j" | "n < j" | "j < n" by linarith
  then show ?case
  proof cases
    case 1
    then show ?thesis by (auto simp add: Cons bit_simps)
  next
    case 2
    then show ?thesis by (auto simp add: Cons bit_simps)
  next
    case 3
    then have "n - j = Suc (n - Suc j)" by simp
    with 3 show ?thesis by (auto simp add: Cons bit_simps)
  qed
qed

lemma rd_int [simp]: "rd a xs (int c) = (if c < length xs then Inr (xs ! c) else Inl (OutOfBounds a (int c)))"
  by (simp add: rd_def)

lemma wr_int [simp]: "wr a xs (int c) v = (if c < length xs then Inr (xs[c := v]) else Inl (OutOfBounds a (int c)))"
  by (simp add: wr_def)

text \<open>Scanning one group: the slice \<open>sl\<close> of the input that the loop consumes.\<close>

lemma take_Suc_drop: "cnt < length xs \<Longrightarrow> take (Suc k) (drop cnt xs) = xs ! cnt # take k (drop (Suc cnt) xs)"
  by (simp add: Cons_nth_drop_Suc[symmetric])

lemma ze_encode_group:
  fixes inp :: "'a::len word list"
  assumes "j + k \<le> LENGTH('a)"
    and "cnt + k \<le> length inp"
    and "brk \<longrightarrow> insize = int (cnt + k)"
    and "\<not> brk \<longrightarrow> j + k = LENGTH('a)"
    and "pos + length (nz (take k (drop cnt inp))) \<le> length dataout"
    and "check \<longrightarrow> int (pos + length (nz (take k (drop cnt inp)))) \<le> datasize"
  shows "h_ZEencode_group check brk inp insize datasize j cnt pos bm dataout =
           Inr (True, cnt + k, pos + length (nz (take k (drop cnt inp))),
                bm OR grp_bits j (take k (drop cnt inp)),
                take pos dataout @ nz (take k (drop cnt inp)) @
                  drop (pos + length (nz (take k (drop cnt inp)))) dataout)"
  using assms
proof (induction k arbitrary: j cnt pos bm dataout)
  case 0
  then show ?case
    by (subst h_ZEencode_group.simps) auto
next
  case (Suc k)
  let ?sl = "take k (drop (Suc cnt) inp)"
  have c: "cnt < length inp" using Suc.prems(2) by simp
  note tk = take_Suc_drop[OF c, of k]
  have j: "j < LENGTH('a)" using Suc.prems(1) by simp
  have nb: "\<not> (brk \<and> insize \<le> int cnt)" using Suc.prems(3) by auto
  show ?case
  proof (cases "inp ! cnt = 0")
    case True
    have "h_ZEencode_group check brk inp insize datasize (Suc j) (Suc cnt) pos bm dataout =
       Inr (True, Suc cnt + k, pos + length (nz ?sl), bm OR grp_bits (Suc j) ?sl,
                take pos dataout @ nz ?sl @ drop (pos + length (nz ?sl)) dataout)"
      using Suc.prems True by (intro Suc.IH) (auto simp add: tk)
    then show ?thesis
      using True j nb c by (subst h_ZEencode_group.simps) (simp add: tk)
  next
    case False
    have p: "pos < length dataout" using Suc.prems(5) False by (simp add: tk)
    have "h_ZEencode_group check brk inp insize datasize (Suc j) (Suc cnt) (Suc pos) (bm OR push_bit j 1) (dataout[pos := inp ! cnt]) =
       Inr (True, Suc cnt + k, Suc pos + length (nz ?sl), (bm OR push_bit j 1) OR grp_bits (Suc j) ?sl,
                take (Suc pos) (dataout[pos := inp ! cnt]) @ nz ?sl @ drop (Suc pos + length (nz ?sl)) (dataout[pos := inp ! cnt]))"
      using Suc.prems False by (intro Suc.IH) (auto simp add: tk)
    moreover have "take (Suc pos) (dataout[pos := inp ! cnt]) = take pos dataout @ [inp ! cnt]"
      using p by (simp add: take_Suc_conv_app_nth)
    moreover have "\<not> (check \<and> datasize \<le> int pos)" using Suc.prems(6) False by (auto simp add: tk)
    ultimately show ?thesis
      using False j nb c p 
      by (subst h_ZEencode_group.simps) (simp add: or.assoc tk)
  qed
qed



lemma ze_encode_groups:
  fixes inp :: "'a::len word list"
  assumes "i \<le> G"
    and "cnt = i * LENGTH('a)"
    and "G * LENGTH('a) \<le> length inp"
    and "pos + length (nz (take (G * LENGTH('a) - cnt) (drop cnt inp))) \<le> length dataout"
    and "check \<longrightarrow> int (pos + length (nz (take (G * LENGTH('a) - cnt) (drop cnt inp)))) \<le> datasize"
    and "G \<le> length bmout"
  shows "h_ZEencode_groups check inp insize datasize (int G + 1) i cnt pos dataout bmout =
           Inr (True, G * LENGTH('a), pos + length (nz (take (G * LENGTH('a) - cnt) (drop cnt inp))),
                take pos dataout @ nz (take (G * LENGTH('a) - cnt) (drop cnt inp)) @
                  drop (pos + length (nz (take (G * LENGTH('a) - cnt) (drop cnt inp)))) dataout,
                take i bmout @ map (grp inp) [i..<G] @ drop G bmout)"
  using assms
proof (induction "G - i" arbitrary: i cnt pos dataout bmout)
  case 0
  then show ?case
    by (subst h_ZEencode_groups.simps) auto
next
  case (Suc d)
  let ?B = "LENGTH('a)"
  define sl where "sl = take ?B (drop cnt inp)"
  define rest where "rest = take (G * ?B - (cnt + ?B)) (drop (cnt + ?B) inp)"
  define p1 where "p1 = pos + length (nz sl)"
  define d1 where "d1 = take pos dataout @ nz sl @ drop p1 dataout"
  define b1 where "b1 = bmout[i := grp inp i]"
  have i: "i < G" using Suc.hyps(2) by simp
  then have "Suc i * ?B \<le> G * ?B" by (intro mult_le_mono1) simp
  then have le: "cnt + ?B \<le> G * ?B" using Suc.prems(2) by simp
  have split: "take (G * ?B - cnt) (drop cnt inp) = sl @ rest"
  proof -
    have "G * ?B - cnt = ?B + (G * ?B - (cnt + ?B))" using le by simp
    then show ?thesis unfolding sl_def rest_def by (simp only: take_add drop_drop add.commute)
  qed
  have cap: "p1 + length (nz rest) \<le> length dataout"
    using Suc.prems(4) unfolding split p1_def by simp
  have ccap: "check \<longrightarrow> int (p1 + length (nz rest)) \<le> datasize"
    using Suc.prems(5) unfolding split p1_def by (auto simp add: algebra_simps)
  have pl: "p1 \<le> length dataout" using cap by simp
  have pp: "pos \<le> p1" by (simp add: p1_def)
  have grp: "h_ZEencode_group check False inp insize datasize 0 cnt pos 0 dataout =
      Inr (True, cnt + ?B, p1, 0 OR grp_bits 0 sl, d1)"
    unfolding p1_def d1_def sl_def
  proof (rule ze_encode_group)
    show "cnt + ?B \<le> length inp" using le Suc.prems(3) by simp
    show "check \<longrightarrow> int (pos + length (nz (take ?B (drop cnt inp)))) \<le> datasize"
      using ccap by (auto simp add: p1_def sl_def)
    show "pos + length (nz (take ?B (drop cnt inp))) \<le> length dataout"
      using pl by (simp add: p1_def sl_def)
  qed simp_all
  have ld1: "length d1 = length dataout" using pl pp unfolding d1_def by (simp add: p1_def)
  have ib: "i < length bmout" using i Suc.prems(6) by simp
  have IH: "h_ZEencode_groups check inp insize datasize (int G + 1) (Suc i) (cnt + ?B) p1 d1 b1 =
     Inr (True, G * ?B, p1 + length (nz rest),
          take p1 d1 @ nz rest @ drop (p1 + length (nz rest)) d1,
          take (Suc i) b1 @ map (grp inp) [Suc i..<G] @ drop G b1)"
    unfolding rest_def
  proof (rule Suc.hyps(1))
    show "d = G - Suc i" using Suc.hyps(2) by simp
    show "cnt + ?B = Suc i * ?B" using Suc.prems(2) by simp
    show "p1 + length (nz (take (G * ?B - (cnt + ?B)) (drop (cnt + ?B) inp))) \<le> length d1"
      using cap ld1 by (simp add: rest_def)
    show "check \<longrightarrow> int (p1 + length (nz (take (G * ?B - (cnt + ?B)) (drop (cnt + ?B) inp)))) \<le> datasize"
      using ccap by (simp add: rest_def)
    show "G \<le> length b1" using Suc.prems(6) by (simp add: b1_def)
  qed (use i Suc.prems in simp_all)
  have t1: "take p1 d1 = take pos dataout @ nz sl" using pl pp by (simp add: d1_def p1_def)
  have t2: "drop (p1 + length (nz rest)) d1 = drop (p1 + length (nz rest)) dataout"
    using pl pp by (simp add: d1_def p1_def ac_simps)
  have t3: "take (Suc i) b1 = take i bmout @ [grp inp i]"
    using ib by (simp add: take_Suc_conv_app_nth b1_def)
  have t4: "drop G b1 = drop G bmout" using i by (simp add: b1_def)
  have t5: "[i..<G] = i # [Suc i..<G]" using i by (simp add: upt_conv_Cons)
  have g: "grp_bits 0 sl = grp inp i" by (simp add: grp_def Suc.prems(2) sl_def)
  have fin: "Inr (True, G * ?B, p1 + length (nz rest),
          take p1 d1 @ nz rest @ drop (p1 + length (nz rest)) d1,
          take (Suc i) b1 @ map (grp inp) [Suc i..<G] @ drop G b1) = 
       (Inr (True, G * LENGTH('a), pos + length (nz (take (G * LENGTH('a) - cnt) (drop cnt inp))),
                take pos dataout @ nz (take (G * LENGTH('a) - cnt) (drop cnt inp)) @
                  drop (pos + length (nz (take (G * LENGTH('a) - cnt) (drop cnt inp)))) dataout,
                take i bmout @ map (grp inp) [i..<G] @ drop G bmout) :: fault + _)"
    unfolding split t1 t2 t3 t4 t5 by (simp add: p1_def add.assoc)
  have wr: "wr ''bmout'' bmout (int i) (grp inp i) = Inr b1"
    using ib by (simp add: b1_def)
  have c: "int i < int G + 1 - 1" using i by simp
  show ?case
    apply (subst h_ZEencode_groups.simps)
    apply (simp only: c if_True if_False grp sum.case prod.case g or.left_neutral wr simp_thms IH fin)
    done
qed

lemma cdiv_nonneg: "0 \<le> a \<Longrightarrow> 0 < b \<Longrightarrow> cdiv a b = a div b"
  by (cases "a = 0") (simp_all add: cdiv_def)


lemma ngroups_int:
  "cdiv (int N + int LENGTH('a) - 1) (int LENGTH('a)) = int (ngroups TYPE('a::len) N)"
proof -
  have "0 < LENGTH('a)" by simp
  then have "int N + int LENGTH('a) - 1 = int (N + LENGTH('a) - 1)"
    by linarith
  moreover have "cdiv (int (N + LENGTH('a) - 1)) (int LENGTH('a)) = int (N + LENGTH('a) - 1) div int LENGTH('a)"
    by (rule cdiv_nonneg) simp_all
  ultimately show ?thesis
    by (simp only: ngroups_def zdiv_int)
qed

lemma ngroups_bounds:
  assumes "0 < N"
  shows "0 < ngroups TYPE('a::len) N"
    and "(ngroups TYPE('a) N - 1) * LENGTH('a) < N"
    and "N \<le> ngroups TYPE('a) N * LENGTH('a)"
proof -
  let ?B = "LENGTH('a)"
  define M where "M = N + ?B - 1"
  define q where "q = M div ?B"
  define t where "t = q * ?B"
  have B: "0 < ?B" by simp
  have "?B \<le> M" using assms by (simp add: M_def)
  then have q: "0 < q"
    unfolding q_def using B by (simp add: div_greater_zero_iff)
  have "M = t + M mod ?B" by (simp add: t_def q_def)
  moreover have "M mod ?B < ?B" using B by simp
  ultimately have t: "t \<le> M" "M < t + ?B" by linarith+
  have "(q - 1) * ?B = t - ?B"
    by (simp add: diff_mult_distrib t_def)
  with t have 1: "(q - 1) * ?B < N" and 2: "N \<le> t"
    using assms by (simp_all add: M_def)
  show "0 < ngroups TYPE('a) N" using q by (simp add: ngroups_def q_def M_def)
  show "(ngroups TYPE('a) N - 1) * ?B < N" using 1 by (simp add: ngroups_def q_def M_def)
  show "N \<le> ngroups TYPE('a) N * ?B" using 2 by (simp add: ngroups_def q_def M_def t_def)
qed


lemma bit_grp:
  "bit (grp inp g) j \<longleftrightarrow>
     j < LENGTH('a) \<and> g * LENGTH('a) + j < length inp \<and> inp ! (g * LENGTH('a) + j) \<noteq> 0"
  for inp :: "'a::len word list"
  by (auto simp add: grp_def bit_grp_bits)

lemma ze_encode_ok:
  fixes inp :: "'a::len word list"
  assumes "inp \<noteq> []"
    and "int (length inp) + int LENGTH('a) - 1 \<le> 2147483647"
    and "length (nz inp) \<le> length dataout"
    and "check \<longrightarrow> int (length (nz inp)) \<le> datasize"
    and "ngroups TYPE('a) (length inp) \<le> length bmout"
  shows "h_ZEencode check inp (int (length inp)) dataout datasize bmout =
           Inr (True, nz inp @ drop (length (nz inp)) dataout, int (length (nz inp)),
                map (grp inp) [0..<ngroups TYPE('a) (length inp)] @
                  drop (ngroups TYPE('a) (length inp)) bmout)"
proof -
  let ?B = "LENGTH('a)"
  define N where "N = length inp"
  define num where "num = ngroups TYPE('a) N"
  define G where "G = num - 1"
  have N: "0 < N" using assms(1) by (simp add: N_def)
  note nb = ngroups_bounds[OF N, where 'a = 'a, folded num_def]
  have num: "num = Suc G" using nb(1) by (simp add: G_def)
  have GB: "G * ?B < N" using nb(2) by (simp add: G_def)
  have NB: "N \<le> G * ?B + ?B" using nb(3) by (simp add: num)
  define k where "k = N - G * ?B"
  define hd where "hd = take (G * ?B) inp"
  define tl where "tl = drop (G * ?B) inp"
  have inp: "inp = hd @ tl" by (simp add: hd_def tl_def)
  have ltl: "length tl = k" by (simp add: tl_def k_def N_def)
  have k: "k \<le> ?B" "G * ?B + k = N" using GB NB by (simp_all add: k_def)
  have nzsplit: "nz inp = nz hd @ nz tl" by (subst inp) simp
  have nl: "length (nz hd) \<le> length dataout"
    using assms(3) by (simp add: nzsplit)
  have groups: "h_ZEencode_groups check inp (int N) datasize (int G + 1) 0 0 0 dataout bmout =
      Inr (True, G * ?B, 0 + length (nz (take (G * ?B - 0) (drop 0 inp))),
           take 0 dataout @ nz (take (G * ?B - 0) (drop 0 inp)) @
             drop (0 + length (nz (take (G * ?B - 0) (drop 0 inp)))) dataout,
           take 0 bmout @ map (grp inp) [0..<G] @ drop G bmout)"
  proof (rule ze_encode_groups)
    show "G * ?B \<le> length inp" using GB by (simp add: N_def)
    show "G \<le> length bmout" using assms(5) by (simp add: num_def[symmetric] N_def[symmetric] num)
    show "0 + length (nz (take (G * ?B - 0) (drop 0 inp))) \<le> length dataout"
      using nl by (simp add: hd_def)
    show "check \<longrightarrow> int (0 + length (nz (take (G * ?B - 0) (drop 0 inp)))) \<le> datasize"
      using assms(4) by (auto simp add: nzsplit hd_def)
  qed simp_all
  define d1 where "d1 = nz hd @ drop (length (nz hd)) dataout"
  define b1 where "b1 = map (grp inp) [0..<G] @ drop G bmout"
  have groups': "h_ZEencode_groups check inp (int N) datasize (int G + 1) 0 0 0 dataout bmout =
      Inr (True, G * ?B, length (nz hd), d1, b1)"
    using groups by (simp add: hd_def d1_def b1_def)
  have tk: "take k (drop (G * ?B) inp) = tl" using ltl by (simp add: tl_def)
  have ld1: "length d1 = length dataout" using nl by (simp add: d1_def)
  have last: "h_ZEencode_group check True inp (int N) datasize 0 (G * ?B) (length (nz hd)) 0 d1 =
      Inr (True, G * ?B + k, length (nz hd) + length (nz (take k (drop (G * ?B) inp))),
           0 OR grp_bits 0 (take k (drop (G * ?B) inp)),
           take (length (nz hd)) d1 @ nz (take k (drop (G * ?B) inp)) @
             drop (length (nz hd) + length (nz (take k (drop (G * ?B) inp)))) d1)"
  proof (rule ze_encode_group)
    show "0 + k \<le> ?B" using k by simp
    show "G * ?B + k \<le> length inp" using k by (simp add: N_def)
    show "True \<longrightarrow> int N = int (G * ?B + k)" using k by simp
    show "length (nz hd) + length (nz (take k (drop (G * ?B) inp))) \<le> length d1"
      using assms(3) by (simp add: tk ld1 nzsplit)
    show "check \<longrightarrow> int (length (nz hd) + length (nz (take k (drop (G * ?B) inp)))) \<le> datasize"
      using assms(4) by (simp add: tk nzsplit)
  qed simp
  have g: "grp_bits 0 tl = grp inp G"
    using k ltl by (simp add: grp_def tl_def)
  have dd: "take (length (nz hd)) d1 @ nz tl @ drop (length (nz hd) + length (nz tl)) d1
      = nz inp @ drop (length (nz inp)) dataout"
    using nl by (simp add: d1_def nzsplit add.commute)
  have last': "h_ZEencode_group check True inp (int N) datasize 0 (G * ?B) (length (nz hd)) 0 d1 =
      Inr (True, N, length (nz inp), grp inp G, nz inp @ drop (length (nz inp)) dataout)"
    using last by (simp add: tk g dd k nzsplit)
  have Gb: "G < length bmout" using assms(5) by (simp add: num_def[symmetric] N_def[symmetric] num)
  have w: "wr ''bmout'' b1 (int G) (grp inp G) = Inr (map (grp inp) [0..<num] @ drop num bmout)"
  proof -
    have "b1[G := grp inp G] = map (grp inp) [0..<G] @ (drop G bmout)[0 := grp inp G]"
      by (simp add: b1_def list_update_append)
    also have "(drop G bmout)[0 := grp inp G] = grp inp G # drop (Suc G) bmout"
      using Gb by (simp add: Cons_nth_drop_Suc[symmetric])
    finally show ?thesis using Gb by (simp add: num b1_def)
  qed
  have ni: "cdiv (int N + int ?B - 1) (int ?B) = int G + 1"
    by (simp add: ngroups_int num_def[symmetric] num)
  have ov: "\<not> 2147483647 < int N + int ?B - 1" using assms(2) by (simp add: N_def)
  show ?thesis
    unfolding h_ZEencode_def Let_def N_def[symmetric] num_def[symmetric]
    by (simp only: ov if_False ni groups' sum.case prod.case simp_thms last' add_diff_cancel_right' w)
qed


lemma nz_take_Suc:
  "c < length xs \<Longrightarrow> nz (take (Suc c) xs) = nz (take c xs) @ (if xs ! c \<noteq> 0 then [xs ! c] else [])"
  by (simp add: take_Suc_conv_app_nth)

lemma nz_nth:
  assumes "c < length xs" "xs ! c \<noteq> 0"
  shows "length (nz (take c xs)) < length (nz xs)"
    and "nz xs ! length (nz (take c xs)) = xs ! c"
proof -
  have "xs = take c xs @ xs ! c # drop (Suc c) xs"
    using assms(1) by (simp add: id_take_nth_drop[symmetric])
  then have "nz xs = nz (take c xs) @ xs ! c # nz (drop (Suc c) xs)"
    using assms(2) filter_append[of "\<lambda>v. v \<noteq> 0" "take c xs" "xs ! c # drop (Suc c) xs"] by simp
  then show "length (nz (take c xs)) < length (nz xs)"
    and "nz xs ! length (nz (take c xs)) = xs ! c"
    by simp_all
qed

lemma ze_decode_group:
  fixes xs :: "'a::len word list"
  assumes "j + k \<le> LENGTH('a)"
    and "cnt + k \<le> length xs"
    and "brk \<longrightarrow> decsize = int (cnt + k) \<and> 0 < k"
    and "\<not> brk \<longrightarrow> j + k = LENGTH('a)"
    and "\<forall>n. j \<le> n \<and> n < j + k \<longrightarrow> (bit bm n \<longleftrightarrow> xs ! (cnt + (n - j)) \<noteq> 0)"
    and "length (nz xs) \<le> length datain"
    and "\<forall>p < length (nz xs). datain ! p = nz xs ! p"
    and "cnt + k \<le> length out"
  shows "h_ZEdecode_group brk decsize datain bm j cnt (length (nz (take cnt xs))) out =
           Inr (cnt + k, length (nz (take (cnt + k) xs)),
                take cnt out @ take k (drop cnt xs) @ drop (cnt + k) out)"
  using assms
proof (induction k arbitrary: j cnt out)
  case 0
  then show ?case
    by (subst h_ZEdecode_group.simps) auto
next
  case (Suc k)
  have c: "cnt < length xs" using Suc.prems(2) by simp
  have co: "cnt < length out" using Suc.prems(8) by simp
  have j: "j < LENGTH('a)" using Suc.prems(1) by simp
  have b: "bit bm j \<longleftrightarrow> xs ! cnt \<noteq> 0" using Suc.prems(5)[rule_format, of j] by simp
  define pos where "pos = length (nz (take cnt xs))"
  define pos' where "pos' = length (nz (take (Suc cnt) xs))"
  define out' where "out' = out[cnt := xs ! cnt]"
  have step: "(if bit bm j
              then (case rd ''datain'' datain (int pos) of Inl e \<Rightarrow> Inl e | Inr v \<Rightarrow> Inr (v, Suc pos))
              else Inr (0, pos)) = Inr (xs ! cnt, pos')"
  proof (cases "xs ! cnt = 0")
    case True
    then show ?thesis using b c by (simp add: pos_def pos'_def nz_take_Suc)
  next
    case False
    from nz_nth[OF c False] Suc.prems(6,7)
    have "pos < length datain" "datain ! pos = xs ! cnt"
      by (auto simp add: pos_def)
    then show ?thesis using b c False by (simp add: pos'_def pos_def nz_take_Suc)
  qed
  have w: "wr ''out'' out (int cnt) (xs ! cnt) = Inr out'"
    using co by (simp add: out'_def)
  have res: "take (Suc cnt) out' @ take k (drop (Suc cnt) xs) @ drop (Suc cnt + k) out'
      = take cnt out @ take (Suc k) (drop cnt xs) @ drop (cnt + Suc k) out"
    using c co by (simp add: out'_def take_Suc_conv_app_nth take_Suc_drop)
  show ?case
  proof (cases "brk \<and> k = 0")
    case True
    then have stop: "brk \<and> decsize \<le> int (Suc cnt)" using Suc.prems(3) by simp
    have res0: "out' = take cnt out @ take (Suc 0) (drop cnt xs) @ drop (cnt + Suc 0) out"
      using res True by simp
    show ?thesis
      apply (subst h_ZEdecode_group.simps)
      using True res0
      apply (simp only: j if_True step[unfolded pos_def] sum.case prod.case w stop pos'_def simp_thms)
      apply simp
      done
  next
    case False
    then have cont: "\<not> (brk \<and> decsize \<le> int (Suc cnt))" using Suc.prems(3) by auto
    have IH: "h_ZEdecode_group brk decsize datain bm (Suc j) (Suc cnt) (length (nz (take (Suc cnt) xs))) out' =
       Inr (Suc cnt + k, length (nz (take (Suc cnt + k) xs)),
                take (Suc cnt) out' @ take k (drop (Suc cnt) xs) @ drop (Suc cnt + k) out')"
    proof (rule Suc.IH)
      show "\<forall>n. Suc j \<le> n \<and> n < Suc j + k \<longrightarrow> bit bm n = (xs ! (Suc cnt + (n - Suc j)) \<noteq> 0)"
      proof (intro allI impI)
        fix n assume n: "Suc j \<le> n \<and> n < Suc j + k"
        then have "cnt + (n - j) = Suc cnt + (n - Suc j)" by linarith
        with Suc.prems(5)[rule_format, of n] n show "bit bm n = (xs ! (Suc cnt + (n - Suc j)) \<noteq> 0)"
          by simp
      qed
      show "brk \<longrightarrow> decsize = int (Suc cnt + k) \<and> 0 < k" using Suc.prems(3) False by auto
    qed (use Suc.prems in \<open>simp_all add: out'_def\<close>)
    show ?thesis
      apply (subst h_ZEdecode_group.simps)
      apply (simp only: j if_True step[unfolded pos_def] sum.case prod.case w cont if_False pos'_def IH res)
      apply simp
      done
  qed
qed


lemma ze_decode_groups:
  fixes xs :: "'a::len word list"
  assumes "i \<le> G"
    and "cnt = i * LENGTH('a)"
    and "G * LENGTH('a) \<le> length xs"
    and "G \<le> length bmin"
    and "\<forall>g < G. bmin ! g = grp xs g"
    and "length (nz xs) \<le> length datain"
    and "\<forall>p < length (nz xs). datain ! p = nz xs ! p"
    and "G * LENGTH('a) \<le> length out"
  shows "h_ZEdecode_groups decsize datain bmin (int G + 1) i cnt (length (nz (take cnt xs))) out =
           Inr (G * LENGTH('a), length (nz (take (G * LENGTH('a)) xs)),
                take cnt out @ take (G * LENGTH('a) - cnt) (drop cnt xs) @ drop (G * LENGTH('a)) out)"
  using assms
proof (induction "G - i" arbitrary: i cnt out)
  case 0
  then show ?case
    by (subst h_ZEdecode_groups.simps) auto
next
  case (Suc d)
  let ?B = "LENGTH('a)"
  define out' where "out' = take cnt out @ take ?B (drop cnt xs) @ drop (cnt + ?B) out"
  have i: "i < G" using Suc.hyps(2) by simp
  then have "Suc i * ?B \<le> G * ?B" by (intro mult_le_mono1) simp
  then have le: "cnt + ?B \<le> G * ?B" using Suc.prems(2) by simp
  have c: "int i < int G + 1 - 1" using i by simp
  have r: "rd ''bmin'' bmin (int i) = Inr (grp xs i)"
    using i Suc.prems(4,5) by simp
  have grp: "h_ZEdecode_group False decsize datain (grp xs i) 0 cnt (length (nz (take cnt xs))) out =
      Inr (cnt + ?B, length (nz (take (cnt + ?B) xs)), out')"
    unfolding out'_def
  proof (rule ze_decode_group)
    show "\<forall>n. 0 \<le> n \<and> n < 0 + ?B \<longrightarrow> bit (grp xs i) n = (xs ! (cnt + (n - 0)) \<noteq> 0)"
      using le Suc.prems(3) by (auto simp add: bit_grp Suc.prems(2))
  qed (use le Suc.prems in simp_all)
  have lo: "length out' = length out"
    using le Suc.prems(3,8) by (simp add: out'_def)
  have IH: "h_ZEdecode_groups decsize datain bmin (int G + 1) (Suc i) (cnt + ?B) (length (nz (take (cnt + ?B) xs))) out' =
           Inr (G * ?B, length (nz (take (G * ?B) xs)),
                take (cnt + ?B) out' @ take (G * ?B - (cnt + ?B)) (drop (cnt + ?B) xs) @ drop (G * ?B) out')"
  proof (rule Suc.hyps(1))
    show "d = G - Suc i" using Suc.hyps(2) by simp
    show "cnt + ?B = Suc i * ?B" using Suc.prems(2) by simp
    show "G * ?B \<le> length out'" using Suc.prems(8) lo by simp
  qed (use i Suc.prems in simp_all)
  have split: "take (G * ?B - cnt) (drop cnt xs) =
      take ?B (drop cnt xs) @ take (G * ?B - (cnt + ?B)) (drop (cnt + ?B) xs)"
  proof -
    have "G * ?B - cnt = ?B + (G * ?B - (cnt + ?B))" using le by simp
    then show ?thesis by (simp only: take_add drop_drop add.commute)
  qed
  define A where "A = take cnt out"
  define M where "M = take ?B (drop cnt xs)"
  have lA: "length A = cnt" using le Suc.prems(8) by (simp add: A_def)
  have lM: "length M = ?B" using le Suc.prems(3) by (simp add: M_def)
  have o': "out' = A @ M @ drop (cnt + ?B) out" by (simp add: out'_def A_def M_def)
  have a: "take (cnt + ?B) out' = A @ M"
    unfolding o' using lA lM by simp
  have "drop (G * ?B) out' = drop (G * ?B - (cnt + ?B)) (drop (cnt + ?B) out)"
    unfolding o' using lA lM le by simp
  also have "\<dots> = drop (G * ?B) out"
    using le by simp
  finally have b: "drop (G * ?B) out' = drop (G * ?B) out" .
  have fin: "take (cnt + ?B) out' @ take (G * ?B - (cnt + ?B)) (drop (cnt + ?B) xs) @ drop (G * ?B) out'
     = take cnt out @ take (G * ?B - cnt) (drop cnt xs) @ drop (G * ?B) out"
    unfolding split a b by (simp add: A_def M_def)
  show ?case
    apply (subst h_ZEdecode_groups.simps)
    apply (simp only: c if_True r sum.case prod.case grp IH fin)
    done
qed

lemma ze_decode_ok:
  fixes xs :: "'a::len word list"
  assumes "xs \<noteq> []"
    and "int (length xs) + int LENGTH('a) - 1 \<le> 2147483647"
    and "ngroups TYPE('a) (length xs) \<le> length bmin"
    and "\<forall>g < ngroups TYPE('a) (length xs). bmin ! g = grp xs g"
    and "length (nz xs) \<le> length datain"
    and "\<forall>p < length (nz xs). datain ! p = nz xs ! p"
    and "length xs \<le> length out"
  shows "h_ZEdecode (int (length xs)) datain bmin out = Inr (xs @ drop (length xs) out)"
proof -
  let ?B = "LENGTH('a)"
  define N where "N = length xs"
  define num where "num = ngroups TYPE('a) N"
  define G where "G = num - 1"
  have N: "0 < N" using assms(1) by (simp add: N_def)
  note nb = ngroups_bounds[OF N, where 'a = 'a, folded num_def]
  have num: "num = Suc G" using nb(1) by (simp add: G_def)
  have GB: "G * ?B < N" using nb(2) by (simp add: G_def)
  have NB: "N \<le> G * ?B + ?B" using nb(3) by (simp add: num)
  define k where "k = N - G * ?B"
  have k: "k \<le> ?B" "G * ?B + k = N" "0 < k" using GB NB by (simp_all add: k_def)
  define out1 where "out1 = take (G * ?B) xs @ drop (G * ?B) out"
  have Gb: "G < length bmin" using assms(3) by (simp add: num_def[symmetric] N_def[symmetric] num)
  have bm: "\<forall>g < Suc G. bmin ! g = grp xs g"
    using assms(4) by (simp add: num_def[symmetric] N_def[symmetric] num)
  have groups: "h_ZEdecode_groups (int N) datain bmin (int G + 1) 0 0 (length (nz (take 0 xs))) out =
           Inr (G * ?B, length (nz (take (G * ?B) xs)),
                take 0 out @ take (G * ?B - 0) (drop 0 xs) @ drop (G * ?B) out)"
  proof (rule ze_decode_groups)
    show "G * ?B \<le> length xs" using GB by (simp add: N_def)
    show "G * ?B \<le> length out" using GB assms(7) by (simp add: N_def)
    show "\<forall>g<G. bmin ! g = grp xs g" using bm by simp
  qed (use Gb assms in simp_all)
  then have groups': "h_ZEdecode_groups (int N) datain bmin (int G + 1) 0 0 0 out =
           Inr (G * ?B, length (nz (take (G * ?B) xs)), out1)"
    by (simp add: out1_def)
  have r: "rd ''bmin'' bmin (int G) = Inr (grp xs G)"
    using Gb bm by simp
  have last: "h_ZEdecode_group True (int N) datain (grp xs G) 0 (G * ?B) (length (nz (take (G * ?B) xs))) out1 =
           Inr (G * ?B + k, length (nz (take (G * ?B + k) xs)),
                take (G * ?B) out1 @ take k (drop (G * ?B) xs) @ drop (G * ?B + k) out1)"
  proof (rule ze_decode_group)
    show "\<forall>n. 0 \<le> n \<and> n < 0 + k \<longrightarrow> bit (grp xs G) n = (xs ! (G * ?B + (n - 0)) \<noteq> 0)"
      using k by (auto simp add: bit_grp N_def)
    show "G * ?B + k \<le> length out1" using k assms(7) by (simp add: out1_def N_def)
  qed (use k assms in \<open>simp_all add: N_def\<close>)
  have fin: "take (G * ?B) out1 @ take k (drop (G * ?B) xs) @ drop (G * ?B + k) out1 = xs @ drop N out"
  proof -
    have a: "take (G * ?B) out1 = take (G * ?B) xs"
      using GB by (simp add: out1_def N_def)
    have b: "take k (drop (G * ?B) xs) = drop (G * ?B) xs"
      by (simp add: k_def N_def)
    have c: "drop (G * ?B + k) out1 = drop N out"
      using GB k by (simp add: out1_def N_def[symmetric] min_def)
    show ?thesis unfolding a b c by simp
  qed
  have ni: "cdiv (int N + int ?B - 1) (int ?B) = int G + 1"
    by (simp add: ngroups_int num_def[symmetric] num)
  have ov: "\<not> 2147483647 < int N + int ?B - 1" using assms(2) by (simp add: N_def)
  show ?thesis
    unfolding h_ZEdecode_def Let_def N_def[symmetric]
    by (simp only: ov if_False ni groups' sum.case prod.case add_diff_cancel_right' r last fin)
qed


lemma nth_map_grp:
  "g < n \<Longrightarrow> (map (grp inp) [0..<n] @ rest) ! g = grp inp g"
  by (simp add: nth_append)

text \<open>
  The round trip for every non-empty array, for both values of \<open>check\<close>: the encoder
  succeeds, the dense length is the number of non-zero words, the dense stream holds
  them in order, bit \<open>j\<close> of bitmap word \<open>i\<close> tells whether \<open>in[i * bits + j]\<close> exists
  and is non-zero, and the decoder writes the input back into the first \<open>N\<close> words of
  \<open>out\<close>.
\<close>

lemma ze_roundtrip:
  fixes inp :: "'a::len word list"
  assumes "inp \<noteq> []"
    and "int (length inp) + int LENGTH('a) - 1 \<le> 2147483647"
    and "length (nz inp) \<le> length dataout"
    and "check \<longrightarrow> int (length (nz inp)) \<le> datasize"
    and "ngroups TYPE('a) (length inp) \<le> length bmout"
    and "length inp \<le> length out"
  shows "\<exists>dataout' bmout'.
           h_ZEencode check inp (int (length inp)) dataout datasize bmout =
             Inr (True, dataout', int (length (nz inp)), bmout') \<and>
           length dataout' = length dataout \<and> length bmout' = length bmout \<and>
           take (length (nz inp)) dataout' = nz inp \<and>
           (\<forall>i j. i < ngroups TYPE('a) (length inp) \<and> j < LENGTH('a) \<longrightarrow>
              (bit (bmout' ! i) j \<longleftrightarrow>
                 i * LENGTH('a) + j < length inp \<and> inp ! (i * LENGTH('a) + j) \<noteq> 0)) \<and>
           h_ZEdecode (int (length inp)) dataout' bmout' out = Inr (inp @ drop (length inp) out)"
proof -
  let ?n = "ngroups TYPE('a) (length inp)"
  let ?d = "nz inp @ drop (length (nz inp)) dataout"
  let ?b = "map (grp inp) [0..<?n] @ drop ?n bmout"
  have e: "h_ZEencode check inp (int (length inp)) dataout datasize bmout =
             Inr (True, ?d, int (length (nz inp)), ?b)"
    using assms(1-5) by (rule ze_encode_ok)
  have d: "h_ZEdecode (int (length inp)) ?d ?b out = Inr (inp @ drop (length inp) out)"
  proof (rule ze_decode_ok)
    show "length (nz inp) \<le> length ?d" by simp
    show "\<forall>p<length (nz inp). ?d ! p = nz inp ! p" by (simp add: nth_append)
    show "\<forall>g<?n. ?b ! g = grp inp g" by (simp add: nth_map_grp)
    show "?n \<le> length ?b" using assms(5) by simp
  qed (use assms in simp_all)
  have l: "length ?d = length dataout" "length ?b = length bmout"
    using assms(3,5) by simp_all
  have b: "\<forall>i j. i < ?n \<and> j < LENGTH('a) \<longrightarrow>
              (bit (?b ! i) j \<longleftrightarrow>
                 i * LENGTH('a) + j < length inp \<and> inp ! (i * LENGTH('a) + j) \<noteq> 0)"
    by (simp add: nth_map_grp bit_grp)
  show ?thesis
    using e d l b by (intro exI[of _ ?d] exI[of _ ?b] conjI) simp_all
qed

text \<open>
  On the empty array \<open>num = 0\<close>: the loop over the full subchunks does nothing, the scan
  of the last subchunk stops at once, and the store \<^verbatim>\<open>bmout[i] = bm\<close> with \<open>i = num - 1\<close>
  goes to index \<open>-1\<close>. The decoder starts its last subchunk with the load
  \<^verbatim>\<open>bmin[i]\<close> at the same index.
\<close>

lemma ze_encode_empty:
  fixes dataout :: "'a::len word list"
  assumes "int LENGTH('a) \<le> 2147483648"
  shows "h_ZEencode check [] 0 dataout datasize bmout = Inl (OutOfBounds ''bmout'' (- 1))"
proof -
  have "cdiv (int LENGTH('a) - 1) (int LENGTH('a)) = 0"
    by (simp add: cdiv_def)
  then show ?thesis
    using assms
    by (simp add: h_ZEencode_def Let_def h_ZEencode_groups.simps h_ZEencode_group.simps wr_def)
qed

lemma ze_decode_empty:
  fixes datain :: "'a::len word list"
  assumes "int LENGTH('a) \<le> 2147483648"
  shows "h_ZEdecode 0 datain bmin out = Inl (OutOfBounds ''bmin'' (- 1))"
proof -
  have "cdiv (int LENGTH('a) - 1) (int LENGTH('a)) = 0"
    by (simp add: cdiv_def)
  then show ?thesis
    using assms
    by (simp add: h_ZEdecode_def Let_def h_ZEdecode_groups.simps rd_def)
qed

lemma length_filter_split:
  "length (nz xs) + length (filter (\<lambda>v. v = 0) xs) = length xs"
  using sum_length_filter_compl[of "\<lambda>v. v \<noteq> 0" xs] by simp

text \<open>
  C2. The round trip, the dense length and the bitmap are as the claim says for every
  non-empty array (\<open>ze_roundtrip\<close>). For the empty array of bytes the encoder does not
  return an empty dense stream and an empty bitmap: it stores to \<open>bmout[-1]\<close>, whatever
  the arrays it is given, and the decoder loads \<open>bmin[-1]\<close>.
\<close>

theorem ze_empty_input_out_of_bounds:
  "h_ZEencode False ([] :: byte list) 0 [] 0 [] = Inl (OutOfBounds ''bmout'' (- 1)) \<and>
   h_ZEdecode 0 ([] :: byte list) [] [] = Inl (OutOfBounds ''bmin'' (- 1))"
  by (simp add: ze_encode_empty ze_decode_empty)

text \<open>
  C7 (amended). For a non-empty array the encoder's output, \<open>datasize\<close> dense words and
  \<open>\<lceil>N / bits\<rceil>\<close> bitmap words, is smaller than the input exactly when the input has
  more zero words than the bitmap has words.
\<close>

theorem ze_size:
  fixes inp :: "'a::len word list"
  assumes "inp \<noteq> []"
    and "int (length inp) + int LENGTH('a) - 1 \<le> 2147483647"
    and "length inp \<le> length dataout"
    and "ngroups TYPE('a) (length inp) \<le> length bmout"
  shows "\<exists>dataout' datasize' bmout'.
           h_ZEencode False inp (int (length inp)) dataout datasize bmout =
             Inr (True, dataout', datasize', bmout') \<and>
           (datasize' + int (ngroups TYPE('a) (length inp)) < int (length inp) \<longleftrightarrow>
              ngroups TYPE('a) (length inp) < length (filter (\<lambda>v. v = 0) inp))"
proof -
  have "length (nz inp) \<le> length dataout"
    using assms(3) length_filter_le[of "\<lambda>v. v \<noteq> 0" inp] by linarith
  from ze_encode_ok[OF assms(1,2) this _ assms(4), of False datasize]
  show ?thesis
    using length_filter_split[of inp] by auto
qed

theorem ze_size_witness:
  "\<exists>dataout' datasize' bmout'.
      h_ZEencode False [0, 5, 0, 0, 7, 0, 0, 0 :: byte] 8 [0, 0, 0, 0, 0, 0, 0, 0] 0 [0] =
        Inr (True, dataout', datasize', bmout') \<and>
      (datasize' + int (ngroups TYPE(8) 8) < 8 \<longleftrightarrow>
         ngroups TYPE(8) 8 < length (filter (\<lambda>v. v = 0) [0, 5, 0, 0, 7, 0, 0, 0 :: byte]))"
  using ze_size [of "[0, 5, 0, 0, 7, 0, 0, 0 :: byte]" "[0, 0, 0, 0, 0, 0, 0, 0]" "[0]" 0]
  by (simp add: ngroups_def)

text \<open>
  The claim as stated fails on eight bytes of which one is zero: the encoder produces
  seven dense words and one bitmap word, eight words for eight.
\<close>

theorem ze_size_counterexample:
  "h_ZEencode False [0, 1, 1, 1, 1, 1, 1, 1 :: byte] 8 [0, 0, 0, 0, 0, 0, 0, 0] 0 [0] =
     Inr (True, [1, 1, 1, 1, 1, 1, 1, 0], 7, [254]) \<and>
   \<not> (7 + int (length [254 :: byte]) < int (length [0, 1, 1, 1, 1, 1, 1, 1 :: byte])) \<and>
   (0 :: byte) \<in> set [0, 1, 1, 1, 1, 1, 1, 1]"
  by (simp add: h_ZEencode_def cdiv_def h_ZEencode_groups.simps h_ZEencode_group.simps
      rd_def wr_def)

subsection \<open>Bitmap arrays that are too short\<close>









end
